theory Spec2Isabelle
  imports Complex_Main "HOL-Library.Multiset" "HOL-Library.Sublist" "HOL-Library.Word"
begin

section \<open>Python primitives used by the services\<close>

text \<open>
  Strings are \<open>string\<close> (lists of 8-bit characters, read as the code points 0..255).
  Python floats are modelled by \<open>real\<close>: sums and comparisons are exact, rounding is
  not modelled. Python integers are \<open>int\<close>.
\<close>

definition isspace :: "char \<Rightarrow> bool" where
  \<comment> \<open>\<open>str.isspace\<close> on the code points below 256: TAB..CR, FS..US, space, NEL, NBSP.\<close>
  "isspace c = (of_char c \<in> set [9, 10, 11, 12, 13, 28, 29, 30, 31, 32, 133, 160 :: nat])"

definition py_strip :: "string \<Rightarrow> string" where
  \<comment> \<open>\<open>s.strip()\<close>\<close>
  "py_strip s = rev (dropWhile isspace (rev (dropWhile isspace s)))"

fun split_ws_from :: "string \<Rightarrow> string \<Rightarrow> string list" where
  "split_ws_from cur [] = (if cur = [] then [] else [cur])"
| "split_ws_from cur (c # cs) =
     (if isspace c then (if cur = [] then split_ws_from [] cs else cur # split_ws_from [] cs)
      else split_ws_from (cur @ [c]) cs)"

definition py_split_ws :: "string \<Rightarrow> string list" where
  \<comment> \<open>\<open>s.split()\<close>: the maximal runs of non-whitespace characters\<close>
  "py_split_ws s = split_ws_from [] s"



fun py_find :: "char \<Rightarrow> string \<Rightarrow> int" where
  \<comment> \<open>\<open>s.find(c)\<close>: the first index of \<open>c\<close>, or \<open>-1\<close>\<close>
  "py_find c [] = -1"
| "py_find c (x # xs) =
     (if x = c then 0 else (let r = py_find c xs in if r < 0 then -1 else r + 1))"

definition py_rfind :: "char \<Rightarrow> string \<Rightarrow> int" where
  \<comment> \<open>\<open>s.rfind(c)\<close>: the last index of \<open>c\<close>, or \<open>-1\<close>\<close>
  "py_rfind c s = (let r = py_find c (rev s) in if r < 0 then -1 else int (length s) - 1 - r)"

definition slice_index :: "nat \<Rightarrow> int \<Rightarrow> nat" where
  \<comment> \<open>a slice bound brought into \<open>0..n\<close>: a negative bound counts from the end\<close>
  "slice_index n i = (if i < 0 then nat (max 0 (int n + i)) else min (nat i) n)"

definition py_slice :: "'a list \<Rightarrow> int \<Rightarrow> int \<Rightarrow> 'a list" where
  \<comment> \<open>\<open>xs[a:b]\<close>\<close>
  "py_slice xs a b =
     (let lo = slice_index (length xs) a; hi = slice_index (length xs) b
      in take (hi - lo) (drop lo xs))"

definition py_slice_from :: "'a list \<Rightarrow> int \<Rightarrow> 'a list" where
  \<comment> \<open>\<open>xs[a:]\<close>\<close>
  "py_slice_from xs a = drop (slice_index (length xs) a) xs"

definition py_slice_to :: "'a list \<Rightarrow> int \<Rightarrow> 'a list" where
  \<comment> \<open>\<open>xs[:b]\<close>\<close>
  "py_slice_to xs b = take (slice_index (length xs) b) xs"

definition py_insert :: "nat \<Rightarrow> 'a \<Rightarrow> 'a list \<Rightarrow> 'a list" where
  \<comment> \<open>\<open>xs.insert(i, x)\<close> for \<open>i \<ge> 0\<close>: an index past the end appends\<close>
  "py_insert i x xs = take i xs @ [x] @ drop i xs"

section \<open>Vector store service\<close>

text \<open>
  The in-memory store of \<open>ChromaDBBackend\<close> (three dictionaries keyed by document id)
  and the log of the service. Metadata values are strings here.
\<close>

record vector_store =
  documents :: "string \<rightharpoonup> string"
  embeddings :: "string \<rightharpoonup> real list"
  metadatas :: "string \<rightharpoonup> (string \<rightharpoonup> string)"
  warnings :: "string list"

definition delete_by_metadata :: "(string \<rightharpoonup> string) \<Rightarrow> vector_store \<Rightarrow> int \<times> vector_store" where
  \<comment> \<open>\<open>VectorStoreService.delete_by_metadata\<close>: logs a warning and returns 0\<close>
  "delete_by_metadata metadata vs =
     (0, vs\<lparr>warnings := warnings vs @
        [''delete_by_metadata: Using search-based deletion (may be slow)'']\<rparr>)"

definition delete_by_source :: "string \<Rightarrow> vector_store \<Rightarrow> int \<times> vector_store" where
  \<comment> \<open>\<open>RAGService.delete_by_source\<close>\<close>
  "delete_by_source source vs = delete_by_metadata [''source'' \<mapsto> source] vs"

section \<open>Conversation service\<close>

text \<open>
  Times are readings of a clock passed to each operation (\<open>datetime.utcnow()\<close> in the
  source). The metadata dictionaries of messages and conversations are left out: no
  operation below reads them.
\<close>

datatype py_error = StopIteration | KeyError | ServiceError

record ChatMessage =
  role :: string
  content :: string
  timestamp :: nat

record ConversationContext =
  conv_id :: string
  messages :: "ChatMessage list"
  created_at :: nat

record ConversationStats =
  message_count :: int
  user_messages :: int
  assistant_messages :: int
  total_tokens_estimate :: real
  started_at :: "nat option"
  last_activity :: "nat option"

text \<open>
  \<open>_conversations\<close> is an \<open>OrderedDict\<close>: an association list with distinct keys, oldest
  entry first. \<open>_stats\<close> is a plain dictionary.
\<close>

record ConversationService =
  max_conversations :: int
  max_messages :: int
  ttl_hours :: int
  conversations :: "(string \<times> ConversationContext) list"
  stats :: "string \<rightharpoonup> ConversationStats"

definition od_pop :: "'k \<Rightarrow> ('k \<times> 'v) list \<Rightarrow> ('k \<times> 'v) list" where
  \<comment> \<open>\<open>d.pop(k, None)\<close>\<close>
  "od_pop k d = filter (\<lambda>kv. fst kv \<noteq> k) d"

definition od_set :: "'k \<Rightarrow> 'v \<Rightarrow> ('k \<times> 'v) list \<Rightarrow> ('k \<times> 'v) list" where
  \<comment> \<open>\<open>d[k] = v\<close>: a present key keeps its place, a new key goes to the end\<close>
  "od_set k v d =
     (if k \<in> set (map fst d) then map (\<lambda>kv. if fst kv = k then (k, v) else kv) d
      else d @ [(k, v)])"

definition od_move_to_end :: "'k \<Rightarrow> ('k \<times> 'v) list \<Rightarrow> ('k \<times> 'v) list" where
  \<comment> \<open>\<open>d.move_to_end(k)\<close>; the callers test \<open>k in d\<close> first\<close>
  "od_move_to_end k d = (case map_of d k of None \<Rightarrow> d | Some v \<Rightarrow> od_pop k d @ [(k, v)])"

definition evict_conversation :: "string \<Rightarrow> ConversationService \<Rightarrow> ConversationService" where
  "evict_conversation conversation_id s =
     s\<lparr>conversations := od_pop conversation_id (conversations s),
       stats := (stats s)(conversation_id := None)\<rparr>"

function evict_while_full :: "ConversationService \<Rightarrow> py_error + ConversationService" where
  \<comment> \<open>the \<open>while\<close> loop of \<open>create_conversation\<close>; \<open>next(iter(d))\<close> raises on an empty dictionary\<close>
  "evict_while_full s =
     (if max_conversations s \<le> int (length (conversations s)) then
        (case conversations s of
           [] \<Rightarrow> Inl StopIteration
         | oldest # _ \<Rightarrow> evict_while_full (evict_conversation (fst oldest) s))
      else Inr s)"
  by pat_completeness auto
termination
  by (relation "measure (\<lambda>s. length (conversations s))")
     (auto simp: evict_conversation_def od_pop_def less_Suc_eq_le)

declare evict_while_full.simps [simp del]

definition create_conversation ::
  "string \<Rightarrow> nat \<Rightarrow> ConversationService \<Rightarrow> py_error + (ConversationContext \<times> ConversationService)" where
  "create_conversation conversation_id now s =
     (case evict_while_full s of
        Inl e \<Rightarrow> Inl e
      | Inr s' \<Rightarrow>
          (let context = \<lparr>conv_id = conversation_id, messages = [], created_at = now\<rparr>
           in Inr (context,
                s'\<lparr>conversations := od_set conversation_id context (conversations s'),
                   stats := (stats s')(conversation_id \<mapsto>
                     \<lparr>message_count = 0, user_messages = 0, assistant_messages = 0,
                      total_tokens_estimate = 0, started_at = Some now,
                      last_activity = Some now\<rparr>)\<rparr>)))"

definition get_conversation ::
  "string \<Rightarrow> nat \<Rightarrow> ConversationService \<Rightarrow> ConversationContext option \<times> ConversationService" where
  "get_conversation conversation_id now s =
     (if conversation_id \<notin> set (map fst (conversations s)) then (None, s)
      else
        (let d = od_move_to_end conversation_id (conversations s);
             st = (case stats s conversation_id of
                     None \<Rightarrow> stats s
                   | Some cs \<Rightarrow> (stats s)(conversation_id \<mapsto> cs\<lparr>last_activity := Some now\<rparr>))
         in (map_of d conversation_id, s\<lparr>conversations := d, stats := st\<rparr>)))"

definition get_or_create ::
  "string \<Rightarrow> nat \<Rightarrow> ConversationService \<Rightarrow> py_error + (ConversationContext \<times> ConversationService)" where
  "get_or_create conversation_id now s =
     (case get_conversation conversation_id now s of
        (Some context, s') \<Rightarrow> Inr (context, s')
      | (None, s') \<Rightarrow> create_conversation conversation_id now s')"

definition token_estimate :: "string \<Rightarrow> real" where
  \<comment> \<open>\<open>len(content.split()) * 1.3\<close>\<close>
  "token_estimate text = real (length (py_split_ws text)) * (13 / 10)"

definition trim_messages :: "int \<Rightarrow> ChatMessage list \<Rightarrow> ChatMessage list" where
  \<comment> \<open>the trimming step of \<open>add_message\<close>\<close>
  "trim_messages maxm msgs =
     (if maxm \<le> int (length msgs) then
        (let system_msgs = filter (\<lambda>m. role m = ''system'') msgs;
             other_msgs = filter (\<lambda>m. role m \<noteq> ''system'') msgs;
             keep_count = maxm - int (length system_msgs) - 1
         in system_msgs @ py_slice_from other_msgs (- keep_count))
      else msgs)"

definition update_stats :: "ChatMessage \<Rightarrow> nat \<Rightarrow> ConversationStats \<Rightarrow> ConversationStats" where
  "update_stats message now cs =
     cs\<lparr>message_count := message_count cs + 1,
        last_activity := Some now,
        user_messages := (if role message = ''user'' then user_messages cs + 1 else user_messages cs),
        assistant_messages :=
          (if role message \<noteq> ''user'' \<and> role message = ''assistant''
           then assistant_messages cs + 1 else assistant_messages cs),
        total_tokens_estimate := total_tokens_estimate cs + token_estimate (content message)\<rparr>"

definition add_message ::
  "string \<Rightarrow> ChatMessage \<Rightarrow> nat \<Rightarrow> ConversationService \<Rightarrow> bool \<times> ConversationService" where
  "add_message conversation_id message now s =
     (case get_conversation conversation_id now s of
        (None, s') \<Rightarrow> (False, s')
      | (Some context, s') \<Rightarrow>
          (let context' = context\<lparr>messages :=
                 trim_messages (max_messages s') (messages context) @ [message]\<rparr>;
               st = (case stats s' conversation_id of
                       None \<Rightarrow> stats s'
                     | Some cs \<Rightarrow> (stats s')(conversation_id \<mapsto> update_stats message now cs))
           in (True, s'\<lparr>conversations := od_set conversation_id context' (conversations s'),
                        stats := st\<rparr>)))"

type_synonym llm_message = "string \<times> string"

fun budget_loop :: "real \<Rightarrow> ChatMessage list \<Rightarrow> llm_message list \<Rightarrow> real \<Rightarrow> llm_message list" where
  \<comment> \<open>the second loop of \<open>get_context_for_llm\<close>, over \<open>reversed(other_msgs)\<close>\<close>
  "budget_loop max_tokens [] msgs token_count = msgs"
| "budget_loop max_tokens (msg # rest) msgs token_count =
     (let msg_tokens = token_estimate (content msg)
      in if max_tokens < token_count + msg_tokens then msgs
         else budget_loop max_tokens rest (py_insert 1 (role msg, content msg) msgs)
                (token_count + msg_tokens))"

definition context_messages :: "ChatMessage list \<Rightarrow> int \<Rightarrow> llm_message list" where
  \<comment> \<open>the body of \<open>get_context_for_llm\<close> once the conversation is found\<close>
  "context_messages msgs max_tokens =
     (let (first_msgs, token_count) =
            (case find (\<lambda>m. role m = ''system'') msgs of
               None \<Rightarrow> ([], 0)
             | Some m \<Rightarrow> ([(role m, content m)], token_estimate (content m)));
          other_msgs = filter (\<lambda>m. role m \<noteq> ''system'') msgs
      in budget_loop (real_of_int max_tokens) (rev other_msgs) first_msgs token_count)"

definition get_context_for_llm ::
  "string \<Rightarrow> int \<Rightarrow> nat \<Rightarrow> ConversationService \<Rightarrow> llm_message list \<times> ConversationService" where
  "get_context_for_llm conversation_id max_tokens now s =
     (case get_conversation conversation_id now s of
        (None, s') \<Rightarrow> ([], s')
      | (Some context, s') \<Rightarrow> (context_messages (messages context) max_tokens, s'))"




text \<open>Sequences of cache operations, for stating the eviction order.\<close>

datatype conv_op = Create string | Get string | GetOrCreate string

fun run_ops :: "conv_op list \<Rightarrow> nat \<Rightarrow> ConversationService \<Rightarrow> py_error + ConversationService" where
  "run_ops [] now s = Inr s"
| "run_ops (Create c # ops) now s =
     (case create_conversation c now s of Inl e \<Rightarrow> Inl e | Inr r \<Rightarrow> run_ops ops now (snd r))"
| "run_ops (Get c # ops) now s = run_ops ops now (snd (get_conversation c now s))"
| "run_ops (GetOrCreate c # ops) now s =
     (case get_or_create c now s of Inl e \<Rightarrow> Inl e | Inr r \<Rightarrow> run_ops ops now (snd r))"

fun created :: "conv_op list \<Rightarrow> string list" where
  \<comment> \<open>the ids passed to \<open>create_conversation\<close> or \<open>get_or_create\<close>, in order\<close>
  "created [] = []"
| "created (Create c # ops) = c # created ops"
| "created (Get c # ops) = created ops"
| "created (GetOrCreate c # ops) = c # created ops"

fun accessed :: "conv_op list \<Rightarrow> string list" where
  \<comment> \<open>the ids passed to \<open>get_conversation\<close>, in order\<close>
  "accessed [] = []"
| "accessed (Create c # ops) = accessed ops"
| "accessed (Get c # ops) = c # accessed ops"
| "accessed (GetOrCreate c # ops) = accessed ops"

definition conv_keys :: "ConversationService \<Rightarrow> string list" where
  \<comment> \<open>\<open>list(self._conversations)\<close>: least recently used first\<close>
  "conv_keys s = map fst (conversations s)"

section \<open>RAG service\<close>

text \<open>
  \<open>DocumentChunk\<close>: the fields \<open>content\<close> and \<open>id\<close> are named \<open>chunk_content\<close> and
  \<open>chunk_id\<close> here; the metadata dictionary is left out. \<open>RAGConfig\<close> keeps the fields
  that retrieval reads. The fields \<open>chunks\<close> and \<open>sources\<close> of \<open>RAGContext\<close> are \<open>ctx_chunks\<close> and
  \<open>ctx_sources\<close>; the timings among its metrics are left out.
\<close>

record DocumentChunk =
  chunk_content :: string
  source :: string
  chunk_index :: int
  chunk_id :: "string option"
  embedding :: "real list option"
  score :: real



text \<open>
  The embedding cache is a dictionary keyed by \<open>hash(text)\<close>. The builtin \<open>hash\<close> is a
  parameter: a function from strings to 64-bit values. The embedding service (the Ollama
  client with the configured model) is a parameter too: it answers a prompt with a vector
  or fails.
\<close>

type_synonym py_hash = "64 word"
type_synonym embedding_cache = "(py_hash \<times> real list) list"

definition generate_embedding ::
  "(string \<Rightarrow> py_hash) \<Rightarrow> (string \<Rightarrow> py_error + real list) \<Rightarrow> nat \<Rightarrow> string \<Rightarrow> embedding_cache
     \<Rightarrow> (py_error + real list) \<times> embedding_cache" where
  "generate_embedding hash ollama cache_max_size text cache =
     (let cache_key = hash text in
      case map_of cache cache_key of
        Some v \<Rightarrow> (Inr v, cache)
      | None \<Rightarrow>
          (case ollama text of
             Inl e \<Rightarrow> (Inl e, cache)
           | Inr vec \<Rightarrow>
               (Inr vec,
                if length cache < cache_max_size then cache @ [(cache_key, vec)]
                else cache)))"

fun generate_embeddings_seq ::
  "(string \<Rightarrow> py_hash) \<Rightarrow> (string \<Rightarrow> py_error + real list) \<Rightarrow> nat \<Rightarrow> string list \<Rightarrow> embedding_cache
     \<Rightarrow> (py_error + real list) list \<times> embedding_cache" where
  \<comment> \<open>one call of \<open>_generate_embedding\<close> after the other, on the same cache\<close>
  "generate_embeddings_seq hash ollama cache_max_size [] cache = ([], cache)"
| "generate_embeddings_seq hash ollama cache_max_size (t # ts) cache =
     (let r = generate_embedding hash ollama cache_max_size t cache;
          rs = generate_embeddings_seq hash ollama cache_max_size ts (snd r)
      in (fst r # fst rs, snd rs))"

definition cache_from ::
  "(string \<Rightarrow> py_hash) \<Rightarrow> (string \<Rightarrow> py_error + real list) \<Rightarrow> string set \<Rightarrow> embedding_cache \<Rightarrow> bool" where
  \<comment> \<open>every entry was stored for one of the texts \<open>seen\<close>, under its hash\<close>
  "cache_from hash ollama seen cache =
     (\<forall>kv \<in> set cache. \<exists>t \<in> seen. fst kv = hash t \<and> ollama t = Inr (snd kv))"





text \<open>
  \<open>VectorStoreService.search\<close> turns the hits of the backend into chunks with
  \<open>score = 1 - distance\<close>. The backend is a parameter.
\<close>

record search_hit =
  hit_id :: string
  hit_content :: string
  hit_source :: "string option"
  hit_chunk_index :: "int option"
  hit_distance :: "real option"

type_synonym backend =
  "real list \<Rightarrow> int \<Rightarrow> (string \<rightharpoonup> string) option \<Rightarrow> py_error + search_hit list"

definition hit_to_chunk :: "search_hit \<Rightarrow> DocumentChunk" where
  "hit_to_chunk h =
     \<lparr>chunk_content = hit_content h,
      source = (case hit_source h of None \<Rightarrow> ''unknown'' | Some s \<Rightarrow> s),
      chunk_index = (case hit_chunk_index h of None \<Rightarrow> 0 | Some i \<Rightarrow> i),
      chunk_id = Some (hit_id h),
      embedding = None,
      score = 1 - (case hit_distance h of None \<Rightarrow> 0 | Some d \<Rightarrow> d)\<rparr>"

definition search ::
  "backend \<Rightarrow> real list \<Rightarrow> int \<Rightarrow> (string \<rightharpoonup> string) option \<Rightarrow> py_error + DocumentChunk list" where
  "search be query_embedding top_k filter_metadata =
     (case be query_embedding top_k filter_metadata of
        Inl e \<Rightarrow> Inl e
      | Inr hits \<Rightarrow> Inr (map hit_to_chunk hits))"



section \<open>Text splitter\<close>

record TextSplitter =
  chunk_size :: int
  chunk_overlap :: int
  separators :: "string list"

definition default_separators :: "string list" where
  "default_separators =
     [[CHR 0x0A, CHR 0x0A], [CHR 0x0A], ''. '', ''! '', ''? '', ''; '', '', '', '' '', '''']"

definition text_splitter :: "int \<Rightarrow> int \<Rightarrow> string list option \<Rightarrow> TextSplitter" where
  \<comment> \<open>\<open>TextSplitter.__init__\<close>: \<open>separators or [...]\<close>\<close>
  "text_splitter cs ov seps =
     \<lparr>chunk_size = cs, chunk_overlap = ov,
      separators = (case seps of None \<Rightarrow> default_separators
                    | Some l \<Rightarrow> if l = [] then default_separators else l)\<rparr>"

fun contains :: "string \<Rightarrow> string \<Rightarrow> bool" where
  \<comment> \<open>\<open>sep in text\<close>\<close>
  "contains sep [] = (sep = [])"
| "contains sep (c # cs) = (prefix sep (c # cs) \<or> contains sep cs)"

function py_split :: "string \<Rightarrow> string \<Rightarrow> string \<Rightarrow> string list" where
  \<comment> \<open>\<open>text.split(sep)\<close> for a non-empty \<open>sep\<close>, with the piece read so far\<close>
  "py_split sep cur [] = [cur]"
| "py_split sep cur (c # cs) =
     (if sep \<noteq> [] \<and> prefix sep (c # cs)
      then cur # py_split sep [] (drop (length sep - 1) cs)
      else py_split sep (cur @ [c]) cs)"
  by pat_completeness auto
termination
  by (relation "measure (\<lambda>(sep, cur, text). length text)") auto

definition overlap_window :: "int \<Rightarrow> string \<Rightarrow> string" where
  \<comment> \<open>\<open>prev_chunk[-overlap:] if len(prev_chunk) > overlap else prev_chunk\<close>\<close>
  "overlap_window ov prev_chunk =
     (if ov < int (length prev_chunk) then py_slice_from prev_chunk (- ov) else prev_chunk)"

definition overlap_text :: "int \<Rightarrow> string \<Rightarrow> string" where
  "overlap_text ov prev_chunk =
     (let w = overlap_window ov prev_chunk; space_idx = py_find CHR '' '' w
      in if 0 < space_idx then py_slice_from w (space_idx + 1) else w)"

definition apply_overlap :: "int \<Rightarrow> string list \<Rightarrow> string list" where
  "apply_overlap ov chunks =
     (if chunks = [] \<or> ov = 0 then chunks
      else hd chunks #
           map (\<lambda>i. overlap_text ov (chunks ! (i - 1)) @ '' '' @ chunks ! i) [1..<length chunks])"

definition size_step :: "int \<Rightarrow> string \<Rightarrow> int \<Rightarrow> string \<times> int" where
  \<comment> \<open>one iteration of \<open>_split_by_size\<close>: the chunk before stripping, and \<open>end\<close>\<close>
  "size_step cs text start =
     (let end0 = start + cs; chunk = py_slice text start end0
      in if end0 < int (length text) then
           (let last_space = py_rfind CHR '' '' chunk
            in if cs div 2 < last_space then (py_slice_to chunk last_space, start + last_space)
               else (chunk, end0))
         else (chunk, end0))"

partial_function (option) split_by_size_loop ::
  "int \<Rightarrow> int \<Rightarrow> string \<Rightarrow> int \<Rightarrow> string list \<Rightarrow> string list option" where
  \<comment> \<open>the \<open>while\<close> loop of \<open>_split_by_size\<close>; \<open>None\<close> when it never ends\<close>
  "split_by_size_loop cs ov text start chunks =
     (if start < int (length text) then
        split_by_size_loop cs ov text (snd (size_step cs text start) - ov)
          (chunks @ [py_strip (fst (size_step cs text start))])
      else Some chunks)"

declare split_by_size_loop.simps [code]

definition split_by_size :: "int \<Rightarrow> int \<Rightarrow> string \<Rightarrow> string list option" where
  "split_by_size cs ov text = split_by_size_loop cs ov text 0 []"

text \<open>
  \<open>_split_with_separator\<close> calls \<open>_recursive_split\<close> on the remaining separators; that call
  is the parameter \<open>rec\<close>.
\<close>

fun separator_loop ::
  "int \<Rightarrow> string \<Rightarrow> (string \<Rightarrow> string list option) \<Rightarrow> string list \<Rightarrow> string list \<Rightarrow> string
     \<Rightarrow> (string list \<times> string) option" where
  \<comment> \<open>the loop over \<open>splits\<close>, on \<open>chunks\<close> and \<open>current_chunk\<close>\<close>
  "separator_loop cs sep rec [] chunks current = Some (chunks, current)"
| "separator_loop cs sep rec (split # rest) chunks current =
     (if py_strip split = [] then separator_loop cs sep rec rest chunks current
      else
        (let potential = (if current \<noteq> [] then current @ sep @ split else split)
         in if int (length potential) \<le> cs then separator_loop cs sep rec rest chunks potential
            else
              (let chunks1 = (if current \<noteq> [] then chunks @ [py_strip current] else chunks)
               in if cs < int (length split) then
                    (case rec split of
                       None \<Rightarrow> None
                     | Some sub_chunks \<Rightarrow> separator_loop cs sep rec rest (chunks1 @ sub_chunks) [])
                  else separator_loop cs sep rec rest chunks1 split)))"

definition split_with_separator ::
  "int \<Rightarrow> int \<Rightarrow> (string \<Rightarrow> string list option) \<Rightarrow> string \<Rightarrow> string \<Rightarrow> string list option" where
  "split_with_separator cs ov rec text sep =
     (case separator_loop cs sep rec (py_split sep [] text) [] [] of
        None \<Rightarrow> None
      | Some r \<Rightarrow>
          Some (apply_overlap ov
                  (if py_strip (snd r) \<noteq> [] then fst r @ [py_strip (snd r)] else fst r)))"

fun try_separators ::
  "int \<Rightarrow> int \<Rightarrow> (string \<Rightarrow> string list option) \<Rightarrow> string \<Rightarrow> string list \<Rightarrow> string list option" where
  \<comment> \<open>the \<open>for sep in separators\<close> loop; \<open>Some []\<close> when no separator gives chunks\<close>
  "try_separators cs ov rec text [] = Some []"
| "try_separators cs ov rec text (sep # seps) =
     (if sep \<noteq> [] \<and> contains sep text then
        (case split_with_separator cs ov rec text sep of
           None \<Rightarrow> None
         | Some chunks \<Rightarrow> if chunks \<noteq> [] then Some chunks else try_separators cs ov rec text seps)
      else try_separators cs ov rec text seps)"

fun recursive_split :: "int \<Rightarrow> int \<Rightarrow> string \<Rightarrow> string list \<Rightarrow> string list option" where
  \<comment> \<open>every separator is tried with \<open>separators[1:]\<close> as the remaining ones\<close>
  "recursive_split cs ov text [] =
     (if text = [] then Some []
      else if int (length text) \<le> cs then Some (if py_strip text \<noteq> [] then [py_strip text] else [])
      else split_by_size cs ov text)"
| "recursive_split cs ov text (sep # remaining) =
     (if text = [] then Some []
      else if int (length text) \<le> cs then Some (if py_strip text \<noteq> [] then [py_strip text] else [])
      else
        (case try_separators cs ov (\<lambda>t. recursive_split cs ov t remaining) text (sep # remaining) of
           None \<Rightarrow> None
         | Some chunks \<Rightarrow> if chunks \<noteq> [] then Some chunks else split_by_size cs ov text))"

definition split_text :: "TextSplitter \<Rightarrow> string \<Rightarrow> string list option" where
  "split_text sp text = recursive_split (chunk_size sp) (chunk_overlap sp) text (separators sp)"

definition starts_mid_word :: "string \<Rightarrow> string \<Rightarrow> bool" where
  \<comment> \<open>the suffix \<open>s\<close> of \<open>prev\<close> begins inside a word: no space at its start or just before it\<close>
  "starts_mid_word prev s =
     (s \<noteq> [] \<and> length s < length prev \<and> hd s \<noteq> CHR '' ''
      \<and> prev ! (length prev - length s - 1) \<noteq> CHR '' '')"

section \<open>Properties\<close>

subsection \<open>Deletion by metadata\<close>

text \<open>
  C9. For every metadata filter and every store state, \<open>delete_by_metadata\<close> returns 0 and
  leaves the stored vectors, documents and metadata unchanged; consequently
  \<open>delete_by_source\<close> returns 0 for every source and deletes nothing.
\<close>

theorem delete_by_metadata_is_stub:
  "fst (delete_by_metadata md vs) = 0
   \<and> documents (snd (delete_by_metadata md vs)) = documents vs
   \<and> embeddings (snd (delete_by_metadata md vs)) = embeddings vs
   \<and> metadatas (snd (delete_by_metadata md vs)) = metadatas vs
   \<and> fst (delete_by_source src vs) = 0
   \<and> documents (snd (delete_by_source src vs)) = documents vs
   \<and> embeddings (snd (delete_by_source src vs)) = embeddings vs
   \<and> metadatas (snd (delete_by_source src vs)) = metadatas vs"
  by (simp add: delete_by_metadata_def delete_by_source_def)

subsection \<open>Token-budgeted export\<close>

lemma token_estimate_nonneg: "0 \<le> token_estimate t"
  by (simp add: token_estimate_def)















lemma get_context_for_llm_unknown:
  "conversation_id \<notin> set (conv_keys s) \<Longrightarrow>
   get_context_for_llm conversation_id max_tokens now s = ([], s)"
  by (simp add: get_context_for_llm_def get_conversation_def conv_keys_def)




text \<open>
  Without a system turn the loop inserts at index 1 of a list that starts empty: the most
  recent turn stays in front of the older ones.
\<close>

lemma context_order_without_system_turn:
  "context_messages
     [\<lparr>role = ''user'', content = ''a'', timestamp = 0\<rparr>,
      \<lparr>role = ''assistant'', content = ''b'', timestamp = 1\<rparr>,
      \<lparr>role = ''user'', content = ''c'', timestamp = 2\<rparr>] 100
   = [(''user'', ''c''), (''user'', ''a''), (''assistant'', ''b'')]"
  by (simp add: context_messages_def token_estimate_def py_split_ws_def isspace_def py_insert_def)

subsection \<open>Turn cap\<close>

text \<open>
  Trimming keeps every system turn and drops non-system turns from the oldest end. The
  cap holds after an append when fewer than \<open>max_messages - 1\<close> system turns are stored.
\<close>

lemma trim_messages_keeps_system:
  "filter (\<lambda>m. role m = ''system'') (trim_messages maxm msgs)
     = filter (\<lambda>m. role m = ''system'') msgs"
proof -
  have "filter (\<lambda>m. role m = ''system'') (drop k (filter (\<lambda>m. role m \<noteq> ''system'') msgs)) = []" for k
    by (auto simp: filter_empty_conv dest: in_set_dropD)
  then show ?thesis
    by (simp add: trim_messages_def Let_def py_slice_from_def)
qed

lemma trim_messages_drops_oldest:
  "suffix (filter (\<lambda>m. role m \<noteq> ''system'') (trim_messages maxm msgs))
          (filter (\<lambda>m. role m \<noteq> ''system'') msgs)"
proof -
  have "filter (\<lambda>m. role m \<noteq> ''system'') (drop k (filter (\<lambda>m. role m \<noteq> ''system'') msgs))
          = drop k (filter (\<lambda>m. role m \<noteq> ''system'') msgs)" for k
    by (auto simp: filter_id_conv dest: in_set_dropD)
  then show ?thesis
    by (simp add: trim_messages_def Let_def py_slice_from_def suffix_drop)
qed

lemma trim_messages_cap:
  assumes "int (length (filter (\<lambda>m. role m = ''system'') msgs)) + 1 < maxm"
  shows "int (length (trim_messages maxm msgs @ [message])) \<le> maxm"
  using assms
  by (auto simp: trim_messages_def Let_def py_slice_from_def slice_index_def)

text \<open>
  C3. Appending to a conversation that already holds \<open>max_messages\<close> turns never removes a
  system turn, never drops the appended turn, and leaves at most \<open>max_messages\<close> turns
  stored. The code breaks the last part when \<open>keep_count\<close> is 0: \<open>other_msgs[-0:]\<close> is the
  whole list. With a cap of 2, a conversation holding a system turn and one user turn holds
  three turns after the next append.
\<close>

theorem add_message_exceeds_cap:
  "map (\<lambda>kv. map content (messages (snd kv)))
     (conversations (snd (add_message ''c1''
        \<lparr>role = ''user'', content = ''b'', timestamp = 2\<rparr> 2
        \<lparr>max_conversations = 100, max_messages = 2, ttl_hours = 24,
         conversations = [(''c1'', \<lparr>conv_id = ''c1'',
            messages = [\<lparr>role = ''system'', content = ''s'', timestamp = 0\<rparr>,
                        \<lparr>role = ''user'', content = ''a'', timestamp = 1\<rparr>],
            created_at = 0\<rparr>)],
         stats = Map.empty\<rparr>)))
   = [[''s'', ''a'', ''b'']]"
  by (simp add: add_message_def get_conversation_def od_move_to_end_def od_pop_def od_set_def
      trim_messages_def py_slice_from_def slice_index_def)

subsection \<open>Least-recently-used eviction\<close>

text \<open>How each operation changes the key order of the cache and the keys of the statistics.\<close>

lemma od_pop_keys: "map fst (od_pop k d) = filter (\<lambda>x. x \<noteq> k) (map fst d)"
  by (induction d) (auto simp: od_pop_def)

lemma od_move_to_end_keys:
  "k \<in> set (map fst d) \<Longrightarrow>
   map fst (od_move_to_end k d) = filter (\<lambda>x. x \<noteq> k) (map fst d) @ [k]"
proof -
  assume "k \<in> set (map fst d)"
  then obtain v where "map_of d k = Some v"
    by (metis map_of_eq_None_iff not_Some_eq set_map)
  then show ?thesis
    by (simp add: od_move_to_end_def od_pop_keys)
qed

lemma od_set_new_keys: "k \<notin> set (map fst d) \<Longrightarrow> map fst (od_set k v d) = map fst d @ [k]"
  by (simp add: od_set_def)

lemma get_conversation_keys:
  "conv_keys (snd (get_conversation c now s))
     = (if c \<in> set (conv_keys s) then filter (\<lambda>x. x \<noteq> c) (conv_keys s) @ [c] else conv_keys s)"
  by (simp add: get_conversation_def conv_keys_def Let_def od_move_to_end_keys)

lemma get_conversation_stats:
  "dom (stats s) = set (conv_keys s) \<Longrightarrow>
   dom (stats (snd (get_conversation c now s))) = dom (stats s)"
  by (auto simp: get_conversation_def Let_def split: option.splits if_splits)

lemma get_conversation_max:
  "max_conversations (snd (get_conversation c now s)) = max_conversations s"
  by (simp add: get_conversation_def Let_def)

lemma get_conversation_absent:
  "c \<notin> set (conv_keys s) \<Longrightarrow> get_conversation c now s = (None, s)"
  by (simp add: get_conversation_def conv_keys_def)

lemma get_conversation_present:
  "c \<in> set (conv_keys s) \<Longrightarrow> fst (get_conversation c now s) \<noteq> None"
proof -
  assume "c \<in> set (conv_keys s)"
  then have "c \<in> set (map fst (od_move_to_end c (conversations s)))"
    by (simp add: od_move_to_end_keys conv_keys_def)
  then have "map_of (od_move_to_end c (conversations s)) c \<noteq> None"
    by (metis map_of_eq_None_iff set_map)
  with \<open>c \<in> set (conv_keys s)\<close> show ?thesis
    by (simp add: get_conversation_def conv_keys_def Let_def)
qed

lemma evict_not_full:
  "int (length (conv_keys s)) < max_conversations s \<Longrightarrow> evict_while_full s = Inr s"
  by (subst evict_while_full.simps) (simp add: conv_keys_def)

lemma evict_full:
  assumes "max_conversations s = int N" and "conv_keys s = x # rest"
    and "distinct (x # rest)" and "Suc (length rest) = N"
  shows "evict_while_full s = Inr (evict_conversation x s)"
proof -
  from assms(2) obtain v d where d: "conversations s = (x, v) # d" and r: "map fst d = rest"
    by (auto simp: conv_keys_def)
  have keys': "conv_keys (evict_conversation x s) = rest"
    using assms(3) d r
    by (auto simp: conv_keys_def evict_conversation_def od_pop_keys filter_id_conv)
  have "max_conversations (evict_conversation x s) = int N"
    by (simp add: evict_conversation_def assms(1))
  with keys' assms(4) have stop: "evict_while_full (evict_conversation x s) = Inr (evict_conversation x s)"
    by (intro evict_not_full) simp
  have full: "max_conversations s \<le> int (length (conversations s))"
    using assms(1,4) d r by auto
  have "evict_while_full s = evict_while_full (evict_conversation (fst (x, v)) s)"
    using full by (subst evict_while_full.simps) (simp add: d)
  with stop show ?thesis by simp
qed

lemma evict_conversation_keys:
  "conv_keys (evict_conversation x s) = filter (\<lambda>k. k \<noteq> x) (conv_keys s)"
  by (simp add: conv_keys_def evict_conversation_def od_pop_keys)

lemma create_not_full:
  assumes "int (length (conv_keys s)) < max_conversations s" and "c \<notin> set (conv_keys s)"
  shows "\<exists>r. create_conversation c now s = Inr r
           \<and> conv_keys (snd r) = conv_keys s @ [c]
           \<and> dom (stats (snd r)) = insert c (dom (stats s))
           \<and> max_conversations (snd r) = max_conversations s"
  using assms
  by (simp add: create_conversation_def evict_not_full Let_def conv_keys_def od_set_new_keys)

lemma create_full:
  assumes "max_conversations s = int N" and "conv_keys s = x # rest"
    and "distinct (x # rest)" and "Suc (length rest) = N" and "c \<notin> set (x # rest)"
  shows "\<exists>r. create_conversation c now s = Inr r
           \<and> conv_keys (snd r) = rest @ [c]
           \<and> dom (stats (snd r)) = insert c (dom (stats s) - {x})
           \<and> max_conversations (snd r) = max_conversations s"
proof -
  have k: "conv_keys (evict_conversation x s) = rest"
    using assms(2,3) by (auto simp: evict_conversation_keys filter_id_conv)
  then have "c \<notin> set (map fst (conversations (evict_conversation x s)))"
    using assms(5) by (simp add: conv_keys_def)
  then show ?thesis
    using k
    by (auto simp: create_conversation_def evict_full [OF assms(1-4)] Let_def conv_keys_def
        od_set_new_keys evict_conversation_def)
qed


lemma get_or_create_absent:
  "c \<notin> set (conv_keys s) \<Longrightarrow> get_or_create c now s = create_conversation c now s"
  by (simp add: get_or_create_def get_conversation_absent)

lemma get_or_create_present:
  "c \<in> set (conv_keys s) \<Longrightarrow>
   \<exists>r. get_or_create c now s = Inr r \<and> snd r = snd (get_conversation c now s)"
  using get_conversation_present [of c s now]
  by (cases "get_conversation c now s") (auto simp: get_or_create_def)

lemma run_gets_only:
  "created ops = [] \<Longrightarrow> dom (stats s) = set (conv_keys s) \<Longrightarrow>
   \<exists>s'. run_ops ops now s = Inr s' \<and> set (conv_keys s') = set (conv_keys s)
        \<and> dom (stats s') = set (conv_keys s')"
proof (induction ops arbitrary: s rule: created.induct)
  case 1
  then show ?case by simp
next
  case (2 c ops)
  then show ?case by simp
next
  case (3 c ops)
  let ?s1 = "snd (get_conversation c now s)"
  have k: "set (conv_keys ?s1) = set (conv_keys s)"
    by (auto simp: get_conversation_keys)
  have "dom (stats ?s1) = set (conv_keys ?s1)"
    using 3 k by (simp add: get_conversation_stats)
  from 3(1) [OF _ this] 3(2) k show ?case by simp
next
  case (4 c ops)
  then show ?case by simp
qed

lemma create_then:
  fixes K :: "ConversationService \<Rightarrow> py_error + ConversationService"
  assumes mx: "max_conversations s = int N" and n1: "1 \<le> N"
    and dk: "distinct (conv_keys s)" and ds: "dom (stats s) = set (conv_keys s)"
    and le: "length (conv_keys s) \<le> N"
    and dc: "distinct (c # cs)" and dj: "set (c # cs) \<inter> set (conv_keys s) = {}"
    and cnt: "length (conv_keys s) + length (c # cs) = Suc N"
    and hx: "hd (conv_keys s @ c # cs) = x"
    and cont: "\<And>s1. max_conversations s1 = int N \<Longrightarrow> distinct (conv_keys s1) \<Longrightarrow>
        dom (stats s1) = set (conv_keys s1) \<Longrightarrow> length (conv_keys s1) \<le> N \<Longrightarrow>
        set cs \<inter> set (conv_keys s1) = {} \<Longrightarrow> length (conv_keys s1) + length cs = Suc N \<Longrightarrow>
        hd (conv_keys s1 @ cs) = x \<Longrightarrow>
        \<exists>s'. K s1 = Inr s' \<and> set (conv_keys s') = set (conv_keys s1 @ cs) - {x}
             \<and> dom (stats s') = set (conv_keys s')"
    and fin: "\<And>s1. cs = [] \<Longrightarrow> dom (stats s1) = set (conv_keys s1) \<Longrightarrow>
        \<exists>s'. K s1 = Inr s' \<and> set (conv_keys s') = set (conv_keys s1)
             \<and> dom (stats s') = set (conv_keys s')"
  shows "\<exists>s'. (case create_conversation c now s of Inl e \<Rightarrow> Inl e | Inr r \<Rightarrow> K (snd r)) = Inr s'
             \<and> set (conv_keys s') = set (conv_keys s @ c # cs) - {x}
             \<and> dom (stats s') = set (conv_keys s')"
proof (cases "length (conv_keys s) < N")
  case True
  from dj have cnew: "c \<notin> set (conv_keys s)" by simp
  from True mx have "int (length (conv_keys s)) < max_conversations s" by simp
  from create_not_full [OF this cnew, of now] obtain r where
    r: "create_conversation c now s = Inr r" and
    k: "conv_keys (snd r) = conv_keys s @ [c]" and
    st: "dom (stats (snd r)) = insert c (dom (stats s))" and
    m: "max_conversations (snd r) = max_conversations s"
    by blast
  have "\<exists>s'. K (snd r) = Inr s' \<and> set (conv_keys s') = set (conv_keys (snd r) @ cs) - {x}
             \<and> dom (stats s') = set (conv_keys s')"
  proof (rule cont)
    show "max_conversations (snd r) = int N" using m mx by simp
    show "distinct (conv_keys (snd r))" using k dk cnew by simp
    show "dom (stats (snd r)) = set (conv_keys (snd r))" using st k ds by simp
    show "length (conv_keys (snd r)) \<le> N" using k True by simp
    show "set cs \<inter> set (conv_keys (snd r)) = {}" using k dj dc by auto
    show "length (conv_keys (snd r)) + length cs = Suc N" using k cnt by simp
    show "hd (conv_keys (snd r) @ cs) = x" using k hx by simp
  qed
  with r k show ?thesis by auto
next
  case False
  with le have full: "length (conv_keys s) = N" by simp
  with cnt have cs: "cs = []" by simp
  from full n1 obtain y rest where yr: "conv_keys s = y # rest"
    by (cases "conv_keys s") auto
  with hx have y: "y = x" by simp
  from full yr have len: "Suc (length rest) = N" by simp
  from dj yr y have cnew: "c \<notin> set (x # rest)" by auto
  from create_full [OF mx yr [unfolded y] dk [unfolded yr y] len cnew, of now] obtain r where
    r: "create_conversation c now s = Inr r" and
    k: "conv_keys (snd r) = rest @ [c]" and
    st: "dom (stats (snd r)) = insert c (dom (stats s) - {x})"
    by blast
  have xr: "x \<notin> set rest" using dk yr y by simp
  have "dom (stats (snd r)) = set (conv_keys (snd r))"
    using st k ds yr y xr by auto
  from fin [OF cs this] obtain s' where
    "K (snd r) = Inr s'" "set (conv_keys s') = set (conv_keys (snd r))"
    "dom (stats s') = set (conv_keys s')"
    by blast
  with r k yr y xr cnew cs show ?thesis by auto
qed

lemma run_ops_evicts_first:
  assumes "max_conversations s = int N" and "1 \<le> N"
    and "distinct (conv_keys s)" and "dom (stats s) = set (conv_keys s)"
    and "length (conv_keys s) \<le> N"
    and "distinct (created ops)" and "set (created ops) \<inter> set (conv_keys s) = {}"
    and "length (conv_keys s) + length (created ops) = Suc N"
    and "hd (conv_keys s @ created ops) = x"
    and "x \<notin> set (accessed ops)"
  shows "\<exists>s'. run_ops ops now s = Inr s'
             \<and> set (conv_keys s') = set (conv_keys s @ created ops) - {x}
             \<and> dom (stats s') = set (conv_keys s')"
  using assms
proof (induction ops arbitrary: s rule: created.induct)
  case 1
  then show ?case by simp
next
  case (2 c ops)
  have "\<exists>s'. (case create_conversation c now s of Inl e \<Rightarrow> Inl e
               | Inr r \<Rightarrow> run_ops ops now (snd r)) = Inr s'
             \<and> set (conv_keys s') = set (conv_keys s @ c # created ops) - {x}
             \<and> dom (stats s') = set (conv_keys s')"
  proof (rule create_then [where N = N])
    fix s1
    assume "max_conversations s1 = int N" "distinct (conv_keys s1)"
      "dom (stats s1) = set (conv_keys s1)" "length (conv_keys s1) \<le> N"
      "set (created ops) \<inter> set (conv_keys s1) = {}"
      "length (conv_keys s1) + length (created ops) = Suc N"
      "hd (conv_keys s1 @ created ops) = x"
    then show "\<exists>s'. run_ops ops now s1 = Inr s'
        \<and> set (conv_keys s') = set (conv_keys s1 @ created ops) - {x}
        \<and> dom (stats s') = set (conv_keys s')"
      using "2.prems" by (intro "2.IH") simp_all
  next
    fix s1
    assume "created ops = []" "dom (stats s1) = set (conv_keys s1)"
    then show "\<exists>s'. run_ops ops now s1 = Inr s' \<and> set (conv_keys s') = set (conv_keys s1)
        \<and> dom (stats s') = set (conv_keys s')"
      by (rule run_gets_only)
  qed (use "2.prems" in simp_all)
  then show ?case by simp
next
  case (3 c ops)
  let ?s1 = "snd (get_conversation c now s)"
  from "3.prems" have cx: "c \<noteq> x" by auto
  have kset: "set (conv_keys ?s1) = set (conv_keys s)"
    by (auto simp: get_conversation_keys)
  have kd: "distinct (conv_keys ?s1)"
    using "3.prems"(3) by (simp add: get_conversation_keys)
  have klen: "length (conv_keys ?s1) = length (conv_keys s)"
    using kset kd "3.prems"(3) by (metis distinct_card)
  have khd: "hd (conv_keys ?s1 @ created ops) = x"
  proof (cases "c \<in> set (conv_keys s)")
    case True
    then obtain y rest where yr: "conv_keys s = y # rest"
      by (cases "conv_keys s") auto
    with "3.prems"(9) have "y = x" by simp
    with yr cx True show ?thesis by (simp add: get_conversation_keys)
  next
    case False
    with "3.prems"(9) show ?thesis by (simp add: get_conversation_keys)
  qed
  have "\<exists>s'. run_ops ops now ?s1 = Inr s'
             \<and> set (conv_keys s') = set (conv_keys ?s1 @ created ops) - {x}
             \<and> dom (stats s') = set (conv_keys s')"
    using "3.prems" kset kd klen khd
    by (intro "3.IH") (simp_all add: get_conversation_max get_conversation_stats)
  with kset show ?case by simp
next
  case (4 c ops)
  from "4.prems"(7) have "c \<notin> set (conv_keys s)" by simp
  then have goc: "get_or_create c now s = create_conversation c now s"
    by (rule get_or_create_absent)
  have "\<exists>s'. (case create_conversation c now s of Inl e \<Rightarrow> Inl e
               | Inr r \<Rightarrow> run_ops ops now (snd r)) = Inr s'
             \<and> set (conv_keys s') = set (conv_keys s @ c # created ops) - {x}
             \<and> dom (stats s') = set (conv_keys s')"
  proof (rule create_then [where N = N])
    fix s1
    assume "max_conversations s1 = int N" "distinct (conv_keys s1)"
      "dom (stats s1) = set (conv_keys s1)" "length (conv_keys s1) \<le> N"
      "set (created ops) \<inter> set (conv_keys s1) = {}"
      "length (conv_keys s1) + length (created ops) = Suc N"
      "hd (conv_keys s1 @ created ops) = x"
    then show "\<exists>s'. run_ops ops now s1 = Inr s'
        \<and> set (conv_keys s') = set (conv_keys s1 @ created ops) - {x}
        \<and> dom (stats s') = set (conv_keys s')"
      using "4.prems" by (intro "4.IH") simp_all
  next
    fix s1
    assume "created ops = []" "dom (stats s1) = set (conv_keys s1)"
    then show "\<exists>s'. run_ops ops now s1 = Inr s' \<and> set (conv_keys s') = set (conv_keys s1)
        \<and> dom (stats s') = set (conv_keys s')"
      by (rule run_gets_only)
  qed (use "4.prems" in simp_all)
  then show ?case by (simp add: goc)
qed


lemma run_ops_append:
  "run_ops (xs @ ys) now s =
     (case run_ops xs now s of Inl e \<Rightarrow> Inl e | Inr s1 \<Rightarrow> run_ops ys now s1)"
  by (induction xs now s rule: run_ops.induct) (simp_all split: sum.splits)

lemma run_creates_fill:
  assumes "max_conversations s = int N" and "distinct (conv_keys s @ ids)"
    and "length (conv_keys s) + length ids \<le> N" and "dom (stats s) = set (conv_keys s)"
  shows "\<exists>s'. run_ops (map Create ids) now s = Inr s' \<and> conv_keys s' = conv_keys s @ ids
             \<and> dom (stats s') = set (conv_keys s') \<and> max_conversations s' = int N"
  using assms
proof (induction ids arbitrary: s)
  case Nil
  then show ?case by simp
next
  case (Cons c ids)
  have "int (length (conv_keys s)) < max_conversations s" and "c \<notin> set (conv_keys s)"
    using Cons.prems by auto
  from create_not_full [OF this, of now] obtain r where
    r: "create_conversation c now s = Inr r" and
    k: "conv_keys (snd r) = conv_keys s @ [c]" and
    st: "dom (stats (snd r)) = insert c (dom (stats s))" and
    m: "max_conversations (snd r) = max_conversations s"
    by blast
  have "\<exists>s'. run_ops (map Create ids) now (snd r) = Inr s'
             \<and> conv_keys s' = conv_keys (snd r) @ ids
             \<and> dom (stats s') = set (conv_keys s') \<and> max_conversations s' = int N"
    using Cons.prems k st m by (intro Cons.IH) auto
  with r k show ?case by auto
qed

lemma access_then_create:
  assumes mx: "max_conversations s = int N" and n2: "2 \<le> N"
    and dk: "distinct (conv_keys s)" and len: "length (conv_keys s) = N"
    and ds: "dom (stats s) = set (conv_keys s)"
    and c: "c \<in> set (conv_keys s)" and new: "new \<notin> set (conv_keys s)"
    and acc: "acc = Get c \<or> acc = GetOrCreate c"
  shows "\<exists>s'. run_ops [acc, Create new] now s = Inr s'
             \<and> conv_keys s' = tl (filter (\<lambda>k. k \<noteq> c) (conv_keys s)) @ [c, new]
             \<and> dom (stats s') = set (conv_keys s')"
proof -
  let ?s1 = "snd (get_conversation c now s)"
  let ?f = "filter (\<lambda>k. k \<noteq> c) (conv_keys s)"
  have k1: "conv_keys ?s1 = ?f @ [c]"
    using c by (simp add: get_conversation_keys)
  have d1: "distinct (conv_keys ?s1)"
    using dk by (simp add: k1)
  have "set (conv_keys ?s1) = set (conv_keys s)"
    using c by (auto simp: k1)
  with d1 dk have "length (conv_keys ?s1) = length (conv_keys s)"
    by (metis distinct_card)
  with len n2 k1 have "?f \<noteq> []" by auto
  then obtain y rest where yr: "?f = y # rest"
    by (cases ?f) auto
  have k1': "conv_keys ?s1 = y # (rest @ [c])"
    by (simp add: k1 yr)
  have m1: "max_conversations ?s1 = int N"
    by (simp add: get_conversation_max mx)
  have l1: "Suc (length (rest @ [c])) = N"
    using \<open>length (conv_keys ?s1) = length (conv_keys s)\<close> len k1' by simp
  have n1: "new \<notin> set (y # (rest @ [c]))"
    using new \<open>set (conv_keys ?s1) = set (conv_keys s)\<close> k1' by auto
  have st1: "dom (stats ?s1) = set (conv_keys ?s1)"
    using ds \<open>set (conv_keys ?s1) = set (conv_keys s)\<close> by (simp add: get_conversation_stats)
  from create_full [OF m1 k1' d1 [unfolded k1'] l1 n1, of now] obtain r where
    r: "create_conversation new now ?s1 = Inr r" and
    k2: "conv_keys (snd r) = (rest @ [c]) @ [new]" and
    st2: "dom (stats (snd r)) = insert new (dom (stats ?s1) - {y})"
    by blast
  have "y \<notin> set (rest @ [c])"
    using d1 k1' by simp
  then have st: "dom (stats (snd r)) = set (conv_keys (snd r))"
    using st2 k2 st1 k1' by auto
  have run: "run_ops [acc, Create new] now s = Inr (snd r)"
  proof -
    from get_or_create_present [OF c, of now] obtain q where
      "get_or_create c now s = Inr q" "snd q = ?s1" by blast
    with acc r show ?thesis by auto
  qed
  from run k2 st yr show ?thesis by simp
qed

text \<open>
  C5 (amended). Let the cache start empty with \<open>max_conversations = N \<ge> 1\<close>.
  (1) When \<open>N + 1\<close> conversations with distinct ids are created (by \<open>create_conversation\<close> or
  \<open>get_or_create\<close>), with any calls of \<open>get_conversation\<close> in between that do not name the
  first id, then exactly the first-created conversation and its statistics are gone at the
  end. (2) When \<open>N \<ge> 2\<close> and a conversation is accessed by \<open>get_conversation\<close> or
  \<open>get_or_create\<close> after the \<open>N\<close>th creation and directly before the next one, it is moved to
  the most recently used end and kept; the least recently used of the others is evicted.
\<close>

theorem lru_eviction:
  assumes "1 \<le> N" and "max_conversations s0 = int N"
    and "conversations s0 = []" and "stats s0 = Map.empty"
  shows "(created ops = x # xs \<and> distinct (x # xs) \<and> length xs = N \<and> x \<notin> set (accessed ops) \<longrightarrow>
            (\<exists>s'. run_ops ops now s0 = Inr s' \<and> set (conv_keys s') = set xs
                 \<and> dom (stats s') = set xs))
       \<and> (2 \<le> N \<and> distinct (ids @ [new]) \<and> length ids = N \<and> c \<in> set ids
            \<and> (acc = Get c \<or> acc = GetOrCreate c) \<longrightarrow>
            (\<exists>s'. run_ops (map Create ids @ [acc, Create new]) now s0 = Inr s'
                 \<and> conv_keys s' = tl (filter (\<lambda>k. k \<noteq> c) ids) @ [c, new]
                 \<and> dom (stats s') = set (conv_keys s')))"
proof (intro conjI impI)
  assume a: "created ops = x # xs \<and> distinct (x # xs) \<and> length xs = N \<and> x \<notin> set (accessed ops)"
  have k0: "conv_keys s0 = []" by (simp add: conv_keys_def assms(3))
  have "\<exists>s'. run_ops ops now s0 = Inr s'
             \<and> set (conv_keys s') = set (conv_keys s0 @ created ops) - {x}
             \<and> dom (stats s') = set (conv_keys s')"
    using a assms k0 by (intro run_ops_evicts_first [where N = N]) simp_all
  with a k0 show "\<exists>s'. run_ops ops now s0 = Inr s' \<and> set (conv_keys s') = set xs
                 \<and> dom (stats s') = set xs"
    by auto
next
  assume b: "2 \<le> N \<and> distinct (ids @ [new]) \<and> length ids = N \<and> c \<in> set ids
            \<and> (acc = Get c \<or> acc = GetOrCreate c)"
  have k0: "conv_keys s0 = []" by (simp add: conv_keys_def assms(3))
  from run_creates_fill [of s0 N ids now] b assms k0 obtain s1 where
    s1: "run_ops (map Create ids) now s0 = Inr s1" "conv_keys s1 = ids"
      "dom (stats s1) = set (conv_keys s1)" "max_conversations s1 = int N"
    by auto
  have "\<exists>s'. run_ops [acc, Create new] now s1 = Inr s'
             \<and> conv_keys s' = tl (filter (\<lambda>k. k \<noteq> c) (conv_keys s1)) @ [c, new]
             \<and> dom (stats s') = set (conv_keys s')"
    using b s1 by (intro access_then_create [where N = N]) auto
  with s1 show "\<exists>s'. run_ops (map Create ids @ [acc, Create new]) now s0 = Inr s'
                 \<and> conv_keys s' = tl (filter (\<lambda>k. k \<noteq> c) ids) @ [c, new]
                 \<and> dom (stats s') = set (conv_keys s')"
    by (simp add: run_ops_append)
qed

theorem lru_eviction_witness:
  "(\<exists>s'. run_ops [Create ''a'', Create ''b'', Get ''b'', Create ''c''] 0
            \<lparr>max_conversations = 2, max_messages = 100, ttl_hours = 24,
             conversations = [], stats = Map.empty\<rparr> = Inr s'
         \<and> set (conv_keys s') = {''b'', ''c''} \<and> dom (stats s') = {''b'', ''c''})
   \<and> (\<exists>s'. run_ops [Create ''a'', Create ''b'', GetOrCreate ''a'', Create ''c''] 0
            \<lparr>max_conversations = 2, max_messages = 100, ttl_hours = 24,
             conversations = [], stats = Map.empty\<rparr> = Inr s'
         \<and> conv_keys s' = [''a'', ''c''])"
  using lru_eviction [of 2 "\<lparr>max_conversations = 2, max_messages = 100, ttl_hours = 24,
             conversations = [], stats = Map.empty\<rparr>"
      "[Create ''a'', Create ''b'', Get ''b'', Create ''c'']" "''a''" "[''b'', ''c'']"
      0 "[''a'', ''b'']" "''c''" "''a''" "GetOrCreate ''a''"]
  by auto

text \<open>
  An access does not protect by itself: with \<open>N = 2\<close>, conversation \<open>a\<close> is accessed while it
  is the only one, and is still the least recently used when the third one is created.
\<close>

theorem lru_access_counterexample:
  "\<exists>s'. run_ops [Create ''a'', Get ''a'', Create ''b'', Create ''c''] 0
            \<lparr>max_conversations = 2, max_messages = 100, ttl_hours = 24,
             conversations = [], stats = Map.empty\<rparr> = Inr s'
        \<and> conv_keys s' = [''b'', ''c''] \<and> ''a'' \<notin> dom (stats s')"
  by (simp add: create_conversation_def get_conversation_def evict_while_full.simps
      evict_conversation_def od_pop_def od_set_def od_move_to_end_def conv_keys_def Let_def)

subsection \<open>Reranking\<close>








subsection \<open>Retrieval: threshold and top-k\<close>






subsection \<open>Embedding cache\<close>

lemma generate_embedding_miss:
  "map_of cache (hash text) = None \<Longrightarrow>
   fst (generate_embedding hash ollama cache_max_size text cache) = ollama text"
  by (simp add: generate_embedding_def split: sum.splits)

lemma generate_embedding_hit:
  "map_of cache (hash text) = Some v \<Longrightarrow>
   generate_embedding hash ollama cache_max_size text cache = (Inr v, cache)"
  by (simp add: generate_embedding_def)

lemma cache_from_hit:
  assumes "cache_from hash ollama seen cache" and "map_of cache (hash text) = Some v"
  shows "\<exists>t \<in> seen. hash t = hash text \<and> ollama t = Inr v"
proof -
  from assms(2) have "(hash text, v) \<in> set cache"
    by (rule map_of_SomeD)
  with assms(1) show ?thesis
    by (fastforce simp: cache_from_def)
qed

lemma cache_from_mono: "cache_from hash ollama seen cache \<Longrightarrow> seen \<subseteq> seen' \<Longrightarrow>
  cache_from hash ollama seen' cache"
  by (fastforce simp: cache_from_def)

lemma cache_from_step:
  assumes "cache_from hash ollama seen cache"
  shows "cache_from hash ollama (insert text seen)
           (snd (generate_embedding hash ollama cache_max_size text cache))"
proof -
  have base: "cache_from hash ollama (insert text seen) cache"
    using assms by (rule cache_from_mono) auto
  show ?thesis
  proof (cases "map_of cache (hash text)")
    case (Some v)
    with base show ?thesis by (simp add: generate_embedding_def)
  next
    case None
    show ?thesis
    proof (cases "ollama text")
      case (Inl e)
      with None base show ?thesis by (simp add: generate_embedding_def)
    next
      case (Inr vec)
      with None base show ?thesis
        by (auto simp: generate_embedding_def cache_from_def)
    qed
  qed
qed

lemma generate_embedding_exact:
  assumes "cache_from hash ollama seen cache" and "inj_on hash (insert text seen)"
  shows "fst (generate_embedding hash ollama cache_max_size text cache) = ollama text"
proof (cases "map_of cache (hash text)")
  case None
  then show ?thesis by (rule generate_embedding_miss)
next
  case (Some v)
  from cache_from_hit [OF assms(1) Some] obtain t where
    t: "t \<in> seen" "hash t = hash text" "ollama t = Inr v"
    by blast
  from inj_onD [OF assms(2) t(2)] t(1) have "t = text"
    by simp
  with t Some show ?thesis
    by (simp add: generate_embedding_hit)
qed

lemma generate_embeddings_seq_exact:
  assumes "cache_from hash ollama seen cache" and "inj_on hash (seen \<union> set texts)"
  shows "fst (generate_embeddings_seq hash ollama cache_max_size texts cache) = map ollama texts"
  using assms
proof (induction texts arbitrary: seen cache)
  case Nil
  then show ?case by simp
next
  case (Cons t ts)
  have inj1: "inj_on hash (insert t seen)"
    using Cons.prems(2) by (rule inj_on_subset) auto
  have inj2: "inj_on hash (insert t seen \<union> set ts)"
    using Cons.prems(2) by (rule inj_on_subset) auto
  have hd_ok: "fst (generate_embedding hash ollama cache_max_size t cache) = ollama t"
    using Cons.prems(1) inj1 by (rule generate_embedding_exact)
  have "cache_from hash ollama (insert t seen)
          (snd (generate_embedding hash ollama cache_max_size t cache))"
    using Cons.prems(1) by (rule cache_from_step)
  from Cons.IH [OF this inj2] hd_ok show ?case
    by (simp add: Let_def)
qed

text \<open>
  C4 (amended). The cache of \<open>_generate_embedding\<close> is keyed by \<open>hash(text)\<close>. A miss always
  falls through to the embedding service and returns its answer for that text. A hit returns
  the vector stored under the same hash value, which the service produced for some earlier
  text with that hash. Whenever no two distinct texts among those embedded so far share a
  hash value, every call returns the vector the service produces for its own text; so does
  every call of a sequence that starts on the empty cache.
\<close>

theorem generate_embedding_keyed_by_hash:
  "(map_of cache (hash text) = None \<longrightarrow>
      fst (generate_embedding hash ollama cache_max_size text cache) = ollama text)
   \<and> (\<forall>v. map_of cache (hash text) = Some v \<longrightarrow>
        generate_embedding hash ollama cache_max_size text cache = (Inr v, cache))
   \<and> (cache_from hash ollama seen cache \<longrightarrow>
        cache_from hash ollama (insert text seen)
          (snd (generate_embedding hash ollama cache_max_size text cache))
        \<and> (\<forall>v. map_of cache (hash text) = Some v \<longrightarrow>
              (\<exists>t \<in> seen. hash t = hash text \<and> ollama t = Inr v))
        \<and> (inj_on hash (insert text seen) \<longrightarrow>
              fst (generate_embedding hash ollama cache_max_size text cache) = ollama text))
   \<and> (inj_on hash (set texts) \<longrightarrow>
        fst (generate_embeddings_seq hash ollama cache_max_size texts []) = map ollama texts)"
proof (intro conjI impI allI)
  show "fst (generate_embedding hash ollama cache_max_size text cache) = ollama text"
    if "map_of cache (hash text) = None"
    using that by (rule generate_embedding_miss)
  show "generate_embedding hash ollama cache_max_size text cache = (Inr v, cache)"
    if "map_of cache (hash text) = Some v" for v
    using that by (rule generate_embedding_hit)
  show "cache_from hash ollama (insert text seen)
          (snd (generate_embedding hash ollama cache_max_size text cache))"
    if "cache_from hash ollama seen cache"
    using that by (rule cache_from_step)
  show "\<exists>t \<in> seen. hash t = hash text \<and> ollama t = Inr v"
    if "cache_from hash ollama seen cache" "map_of cache (hash text) = Some v" for v
    using that by (rule cache_from_hit)
  show "fst (generate_embedding hash ollama cache_max_size text cache) = ollama text"
    if "cache_from hash ollama seen cache" "inj_on hash (insert text seen)"
    using that by (rule generate_embedding_exact)
  show "fst (generate_embeddings_seq hash ollama cache_max_size texts []) = map ollama texts"
    if "inj_on hash (set texts)"
  proof -
    have "cache_from hash ollama {} []"
      by (simp add: cache_from_def)
    moreover from that have "inj_on hash ({} \<union> set texts)" by simp
    ultimately show ?thesis by (rule generate_embeddings_seq_exact)
  qed
qed

text \<open>
  Strings are infinitely many and hash values are not, so some two texts share a hash value.
  After the first is embedded, the second is answered with the vector of the first.
\<close>

lemma hash_collision: "\<exists>t1 t2. t1 \<noteq> t2 \<and> (hash :: string \<Rightarrow> py_hash) t1 = hash t2"
proof -
  have "\<not> inj hash"
  proof
    assume "inj hash"
    then have "finite (UNIV :: string set)"
      by (rule finite_imageD [rotated]) simp
    then show False
      by (simp add: infinite_UNIV_listI)
  qed
  then show ?thesis
    by (auto simp: inj_on_def)
qed

theorem embedding_cache_collision_counterexample:
  "\<forall>hash :: string \<Rightarrow> py_hash. \<exists>t1 t2.
     t1 \<noteq> t2
     \<and> fst (generate_embedding hash (\<lambda>t. Inr (map (\<lambda>c. real (of_char c)) t)) 1000 t2
          (snd (generate_embedding hash (\<lambda>t. Inr (map (\<lambda>c. real (of_char c)) t)) 1000 t1 [])))
        = Inr (map (\<lambda>c. real (of_char c)) t1)
     \<and> (Inr (map (\<lambda>c. real (of_char c)) t1) :: py_error + real list)
        \<noteq> Inr (map (\<lambda>c. real (of_char c)) t2)"
proof
  fix hash :: "string \<Rightarrow> py_hash"
  from hash_collision [of hash] obtain t1 t2 where t: "t1 \<noteq> t2" "hash t1 = hash t2"
    by blast
  have inj: "inj (\<lambda>c :: char. real (of_char c))"
    by (auto simp: inj_on_def)
  have "map (\<lambda>c. real (of_char c)) t1 \<noteq> map (\<lambda>c. real (of_char c)) t2"
    using t(1) inj by (simp add: inj_map_eq_map)
  moreover have "fst (generate_embedding hash (\<lambda>t. Inr (map (\<lambda>c. real (of_char c)) t)) 1000 t2
          (snd (generate_embedding hash (\<lambda>t. Inr (map (\<lambda>c. real (of_char c)) t)) 1000 t1 [])))
        = Inr (map (\<lambda>c. real (of_char c)) t1)"
    using t(2) by (simp add: generate_embedding_def)
  ultimately show "\<exists>t1 t2.
     t1 \<noteq> t2
     \<and> fst (generate_embedding hash (\<lambda>t. Inr (map (\<lambda>c. real (of_char c)) t)) 1000 t2
          (snd (generate_embedding hash (\<lambda>t. Inr (map (\<lambda>c. real (of_char c)) t)) 1000 t1 [])))
        = Inr (map (\<lambda>c. real (of_char c)) t1)
     \<and> (Inr (map (\<lambda>c. real (of_char c)) t1) :: py_error + real list)
        \<noteq> Inr (map (\<lambda>c. real (of_char c)) t2)"
    using t(1) by blast
qed


theorem generate_embedding_keyed_by_hash_witness:
  "inj_on (\<lambda>t. of_nat (length t) :: py_hash) (set [''a'', ''bb'', ''a''])
   \<and> fst (generate_embeddings_seq (\<lambda>t. of_nat (length t)) (\<lambda>t. Inr [real (length t)]) 1000
          [''a'', ''bb'', ''a''] [])
     = [Inr [1], Inr [2], Inr [1]]"
proof -
  have i: "inj_on (\<lambda>t. of_nat (length t) :: py_hash) (set [''a'', ''bb'', ''a''])"
    by (simp add: inj_on_def)
  have "fst (generate_embeddings_seq (\<lambda>t. of_nat (length t)) (\<lambda>t. Inr [real (length t)]) 1000
          [''a'', ''bb'', ''a''] [])
     = map (\<lambda>t. Inr [real (length t)]) [''a'', ''bb'', ''a'']"
    using generate_embedding_keyed_by_hash
      [where hash = "\<lambda>t. of_nat (length t)" and texts = "[''a'', ''bb'', ''a'']"
         and ollama = "\<lambda>t. Inr [real (length t)]" and cache_max_size = 1000] i
    by blast
  with i show ?thesis by simp
qed

subsection \<open>Empty chunks\<close>

text \<open>
  C8. For an input that is empty or only whitespace \<open>split_text\<close> returns the empty sequence,
  and no chunk of any result is empty after trimming. The code breaks both for whitespace
  longer than \<open>chunk_size\<close>: every separator yields no chunk, and the fixed-width fallback
  appends each stripped window without testing it. Five spaces with \<open>chunk_size = 4\<close> and
  \<open>chunk_overlap = 1\<close> give two empty chunks.
\<close>

theorem split_text_whitespace_chunks:
  "split_text (text_splitter 4 1 None) ''     '' = Some ['''', '''']"
  by code_simp

subsection \<open>Termination of the splitter\<close>

text \<open>
  The fixed-width loop moves its window start forward in every iteration, so it ends; the
  loops over splits and separators end when the recursive calls do; the recursion is on the
  separator list.
\<close>

lemma size_step_end:
  "snd (size_step cs text start) = start + cs
   \<or> (cs div 2 < snd (size_step cs text start) - start)"
  by (simp add: size_step_def Let_def)

lemma size_step_advance:
  assumes "1 \<le> cs" and "ov \<le> cs div 2"
  shows "start + 1 \<le> snd (size_step cs text start) - ov"
  using assms size_step_end [of cs "text" start] by linarith

lemma size_step_cut:
  assumes "start + cs < int (length inp)"
    and "cs div 2 < py_rfind CHR '' '' (py_slice inp start (start + cs))"
  shows "snd (size_step cs inp start) = start + py_rfind CHR '' '' (py_slice inp start (start + cs))"
  using assms by (simp add: size_step_def Let_def)

lemma size_step_advance_at_cut:
  assumes "start + cs < int (length inp)"
    and "cs div 2 < py_rfind CHR '' '' (py_slice inp start (start + cs))"
  shows "cs div 2 + 1 - ov \<le> (snd (size_step cs inp start) - ov) - start"
  using assms size_step_cut [OF assms] by linarith

lemma split_by_size_loop_terminates:
  assumes "1 \<le> cs" and "ov \<le> cs div 2"
  shows "\<exists>r. split_by_size_loop cs ov text start chunks = Some r"
proof (induction "nat (int (length text) - start)" arbitrary: start chunks rule: less_induct)
  case less
  show ?case
  proof (cases "start < int (length text)")
    case False
    then show ?thesis
      by (subst split_by_size_loop.simps) simp
  next
    case True
    let ?next = "snd (size_step cs text start) - ov"
    from size_step_advance [OF assms, of start "text"] True
    have "nat (int (length text) - ?next) < nat (int (length text) - start)"
      by linarith
    from less [OF this] obtain r where
      "split_by_size_loop cs ov text ?next (chunks @ [py_strip (fst (size_step cs text start))])
         = Some r"
      by blast
    with True show ?thesis
      by (subst split_by_size_loop.simps) simp
  qed
qed

lemma separator_loop_terminates:
  assumes "\<forall>t. \<exists>r. rec t = Some r"
  shows "\<exists>r. separator_loop cs sep rec splits chunks current = Some r"
proof (induction splits arbitrary: chunks current)
  case Nil
  then show ?case by simp
next
  case (Cons split rest)
  from assms obtain sub where sub: "rec split = Some sub" by blast
  show ?case
    using Cons [of chunks current] Cons [of chunks "current @ sep @ split"]
      Cons [of chunks split]
      Cons [of "chunks @ [py_strip current] @ sub" "[]"] Cons [of "chunks @ sub" "[]"]
      Cons [of "chunks @ [py_strip current]" split]
    by (simp add: Let_def sub)
qed

lemma split_with_separator_terminates:
  assumes "\<forall>t. \<exists>r. rec t = Some r"
  shows "\<exists>r. split_with_separator cs ov rec inp sep = Some r"
proof -
  from assms have "\<exists>r. separator_loop cs sep rec (py_split sep [] inp) [] [] = Some r"
    by (rule separator_loop_terminates)
  then show ?thesis
    by (auto simp: split_with_separator_def)
qed

lemma try_separators_terminates:
  assumes "\<forall>t. \<exists>r. rec t = Some r"
  shows "\<exists>r. try_separators cs ov rec inp seps = Some r"
proof (induction seps)
  case Nil
  then show ?case by simp
next
  case (Cons sep seps)
  from assms have "\<exists>r. split_with_separator cs ov rec inp sep = Some r"
    by (rule split_with_separator_terminates)
  then obtain r where "split_with_separator cs ov rec inp sep = Some r"
    by blast
  with Cons show ?case by simp
qed

lemma split_by_size_terminates:
  assumes "1 \<le> cs" and "ov \<le> cs div 2"
  shows "\<exists>r. split_by_size cs ov inp = Some r"
  unfolding split_by_size_def using assms by (rule split_by_size_loop_terminates)

lemma recursive_split_terminates:
  assumes "1 \<le> cs" and "ov \<le> cs div 2"
  shows "\<exists>r. recursive_split cs ov inp seps = Some r"
proof (induction seps arbitrary: inp)
  case Nil
  from split_by_size_terminates [OF assms]
  show ?case by simp
next
  case (Cons sep remaining)
  from Cons have "\<forall>t. \<exists>r. recursive_split cs ov t remaining = Some r"
    by blast
  then have "\<exists>r. try_separators cs ov (\<lambda>t. recursive_split cs ov t remaining) inp (sep # remaining)
          = Some r"
    by (rule try_separators_terminates)
  then obtain r where
    r: "try_separators cs ov (\<lambda>t. recursive_split cs ov t remaining) inp (sep # remaining)
          = Some r"
    by blast
  from split_by_size_terminates [OF assms]
  obtain q where q: "split_by_size cs ov inp = Some q"
    by blast
  show ?case
    by (simp add: r q del: try_separators.simps)
qed

lemma recursive_split_unfold:
  "recursive_split cs ov text seps =
     (if text = [] then Some []
      else if int (length text) \<le> cs then Some (if py_strip text \<noteq> [] then [py_strip text] else [])
      else
        (case try_separators cs ov (\<lambda>t. recursive_split cs ov t (drop 1 seps)) text seps of
           None \<Rightarrow> None
         | Some chunks \<Rightarrow> if chunks \<noteq> [] then Some chunks else split_by_size cs ov text))"
  by (cases seps) simp_all

text \<open>
  Outside these bounds the loop need not end: with \<open>chunk_size = chunk_overlap = 1\<close> the
  window start never moves.
\<close>

lemma split_by_size_loop_stuck_at_start:
  assumes "split_by_size_loop cs ov inp start cks = Some y"
  shows "\<not> (cs = 1 \<and> ov = 1 \<and> inp = ''ab'' \<and> start = 0)"
proof (rule split_by_size_loop.raw_induct
    [where P = "\<lambda>cs ov inp start cks y. \<not> (cs = 1 \<and> ov = 1 \<and> inp = ''ab'' \<and> start = 0)",
     OF _ assms])
  fix f :: "int \<Rightarrow> int \<Rightarrow> string \<Rightarrow> int \<Rightarrow> string list \<Rightarrow> string list option"
  fix cs ov :: int and inp :: string and start :: int and cks y :: "string list"
  assume IH: "\<And>cs ov inp start cks y. f cs ov inp start cks = Some y \<Longrightarrow>
                \<not> (cs = 1 \<and> ov = 1 \<and> inp = ''ab'' \<and> start = 0)"
  assume body: "(if start < int (length inp)
      then f cs ov inp (snd (size_step cs inp start) - ov)
             (cks @ [py_strip (fst (size_step cs inp start))])
      else Some cks) = Some y"
  have step: "snd (size_step 1 ''ab'' 0) - 1 = 0"
    by code_simp
  show "\<not> (cs = 1 \<and> ov = 1 \<and> inp = ''ab'' \<and> start = 0)"
  proof
    assume a: "cs = 1 \<and> ov = 1 \<and> inp = ''ab'' \<and> start = 0"
    with body step
    have "f 1 1 ''ab'' 0 (cks @ [py_strip (fst (size_step 1 ''ab'' 0))]) = Some y"
      by simp
    from IH [OF this] show False by simp
  qed
qed

lemma split_by_size_never_returns:
  "split_by_size 1 1 ''ab'' = None"
proof (cases "split_by_size_loop 1 1 ''ab'' 0 []")
  case None
  then show ?thesis by (simp add: split_by_size_def)
next
  case (Some y)
  from split_by_size_loop_stuck_at_start [OF this] show ?thesis by simp
qed

text \<open>
  C10. With \<open>chunk_size \<ge> 1\<close> and \<open>0 \<le> chunk_overlap \<le> chunk_size div 2\<close>, \<open>split_text\<close>
  returns for every input text. Every recursive call of \<open>_recursive_split\<close> gets
  \<open>separators[1:]\<close>, a strictly shorter list. Every iteration of the fixed-width fallback
  moves the window start forward by at least one character, and by at least
  \<open>chunk_size div 2 + 1 - chunk_overlap\<close> when it cuts at a space past the middle of the
  window.
\<close>

theorem split_text_terminates:
  assumes "1 \<le> chunk_size sp" and "0 \<le> chunk_overlap sp"
    and "chunk_overlap sp \<le> chunk_size sp div 2"
  shows "(\<exists>chunks. split_text sp text = Some chunks)
       \<and> (\<forall>t seps. recursive_split (chunk_size sp) (chunk_overlap sp) t seps =
            (if t = [] then Some []
             else if int (length t) \<le> chunk_size sp
               then Some (if py_strip t \<noteq> [] then [py_strip t] else [])
             else
               (case try_separators (chunk_size sp) (chunk_overlap sp)
                       (\<lambda>u. recursive_split (chunk_size sp) (chunk_overlap sp) u (drop 1 seps))
                       t seps of
                  None \<Rightarrow> None
                | Some chunks \<Rightarrow>
                    if chunks \<noteq> [] then Some chunks
                    else split_by_size (chunk_size sp) (chunk_overlap sp) t))
          \<and> (seps \<noteq> [] \<longrightarrow> length (drop 1 seps) < length seps))
       \<and> (\<forall>t start. start + 1 \<le> snd (size_step (chunk_size sp) t start) - chunk_overlap sp
          \<and> (start + chunk_size sp < int (length t)
               \<and> chunk_size sp div 2
                   < py_rfind CHR '' '' (py_slice t start (start + chunk_size sp)) \<longrightarrow>
               chunk_size sp div 2 + 1 - chunk_overlap sp
                 \<le> (snd (size_step (chunk_size sp) t start) - chunk_overlap sp) - start))"
proof (intro conjI allI impI)
  show "\<exists>chunks. split_text sp text = Some chunks"
    unfolding split_text_def using assms(1,3) by (rule recursive_split_terminates)
  show "start + 1 \<le> snd (size_step (chunk_size sp) t start) - chunk_overlap sp" for t start
    using assms(1,3) by (rule size_step_advance)
  show "chunk_size sp div 2 + 1 - chunk_overlap sp
          \<le> (snd (size_step (chunk_size sp) t start) - chunk_overlap sp) - start"
    if "start + chunk_size sp < int (length t)
        \<and> chunk_size sp div 2 < py_rfind CHR '' '' (py_slice t start (start + chunk_size sp))"
    for t start
    using that by (intro size_step_advance_at_cut) simp_all
  show "length (drop 1 seps) < length seps" if "seps \<noteq> []" for seps :: "string list"
    using that by (cases seps) simp_all
  show "recursive_split (chunk_size sp) (chunk_overlap sp) t seps =
            (if t = [] then Some []
             else if int (length t) \<le> chunk_size sp
               then Some (if py_strip t \<noteq> [] then [py_strip t] else [])
             else
               (case try_separators (chunk_size sp) (chunk_overlap sp)
                       (\<lambda>u. recursive_split (chunk_size sp) (chunk_overlap sp) u (drop 1 seps))
                       t seps of
                  None \<Rightarrow> None
                | Some chunks \<Rightarrow>
                    if chunks \<noteq> [] then Some chunks
                    else split_by_size (chunk_size sp) (chunk_overlap sp) t))" for t seps
    by (rule recursive_split_unfold)
qed


theorem split_text_terminates_witness:
  "1 \<le> chunk_size (text_splitter 4 1 None)
   \<and> 0 \<le> chunk_overlap (text_splitter 4 1 None)
   \<and> chunk_overlap (text_splitter 4 1 None) \<le> chunk_size (text_splitter 4 1 None) div 2
   \<and> (\<exists>chunks. split_text (text_splitter 4 1 None) ''abcdefghijkl'' = Some chunks)
   \<and> split_text (text_splitter 4 1 None) ''abcdefghijkl''
       = Some [''abcd'', ''defg'', ''ghij'', ''jkl'']"
proof -
  have h: "1 \<le> chunk_size (text_splitter 4 1 None)"
    "0 \<le> chunk_overlap (text_splitter 4 1 None)"
    "chunk_overlap (text_splitter 4 1 None) \<le> chunk_size (text_splitter 4 1 None) div 2"
    by (simp_all add: text_splitter_def)
  have e: "split_text (text_splitter 4 1 None) ''abcdefghijkl''
       = Some [''abcd'', ''defg'', ''ghij'', ''jkl'']"
    by code_simp
  from split_text_terminates [OF h, of "''abcdefghijkl''"] h e
  show ?thesis by blast
qed

subsection \<open>Overlap between chunks\<close>

text \<open>
  The overlap taken from a chunk is a suffix of it, at most \<open>chunk_overlap\<close> characters long.
  When the window of the last \<open>chunk_overlap\<close> characters holds a space, the overlap starts
  right after the first one (or with it, when the window starts with a space).
\<close>

lemma py_find_absent: "c \<notin> set xs \<Longrightarrow> py_find c xs = -1"
  by (induction xs) (auto simp: Let_def)

lemma py_find_present:
  "c \<in> set xs \<Longrightarrow>
   0 \<le> py_find c xs \<and> nat (py_find c xs) < length xs \<and> xs ! nat (py_find c xs) = c"
proof (induction xs)
  case Nil
  then show ?case by simp
next
  case (Cons x xs)
  show ?case
  proof (cases "x = c")
    case True
    then show ?thesis by simp
  next
    case False
    with Cons.prems have "c \<in> set xs" by simp
    from Cons.IH [OF this] False show ?thesis
      by (simp add: Let_def nat_add_distrib)
  qed
qed

lemma overlap_window_suffix: "suffix (overlap_window ov prev) prev"
  by (simp add: overlap_window_def py_slice_from_def suffix_drop)

lemma overlap_window_length: "0 < ov \<Longrightarrow> int (length (overlap_window ov prev)) \<le> ov"
  by (auto simp: overlap_window_def py_slice_from_def slice_index_def)

lemma overlap_text_suffix_window: "suffix (overlap_text ov prev) (overlap_window ov prev)"
  by (simp add: overlap_text_def Let_def py_slice_from_def suffix_drop)

lemma overlap_text_suffix: "suffix (overlap_text ov prev) prev"
  using overlap_text_suffix_window overlap_window_suffix by (rule suffix_order.trans)

lemma overlap_text_length: "0 < ov \<Longrightarrow> int (length (overlap_text ov prev)) \<le> ov"
  using overlap_window_length [of ov prev] suffix_length_le [OF overlap_text_suffix_window, of ov prev]
  by linarith

lemma overlap_text_aligned:
  assumes "CHR '' '' \<in> set (overlap_window ov prev)"
  shows "\<not> starts_mid_word prev (overlap_text ov prev)"
proof -
  let ?w = "overlap_window ov prev"
  let ?i = "py_find CHR '' '' ?w"
  from py_find_present [OF assms] have
    i: "0 \<le> ?i" "nat ?i < length ?w" "?w ! nat ?i = CHR '' ''"
    by simp_all
  from overlap_window_suffix obtain p where p: "prev = p @ ?w"
    by (auto simp: suffix_def)
  show ?thesis
  proof (cases "0 < ?i")
    case False
    with i have "?i = 0" by simp
    with i have "hd ?w = CHR '' ''"
      by (cases ?w) simp_all
    with False show ?thesis
      by (simp add: overlap_text_def Let_def starts_mid_word_def)
  next
    case True
    then have ot: "overlap_text ov prev = drop (Suc (nat ?i)) ?w"
      using i by (simp add: overlap_text_def Let_def py_slice_from_def slice_index_def
          nat_add_distrib min_def)
    have w: "?w = take (nat ?i) ?w @ CHR '' '' # drop (Suc (nat ?i)) ?w"
      using i by (metis id_take_nth_drop)
    have "prev = (p @ take (nat ?i) ?w) @ CHR '' '' # overlap_text ov prev"
      using p w ot by (metis append.assoc)
    then obtain q where q: "prev = q @ CHR '' '' # overlap_text ov prev"
      by blast
    have "prev ! (length prev - length (overlap_text ov prev) - 1) = CHR '' ''"
      by (subst (1 2) q) (simp add: nth_append)
    then show ?thesis
      by (simp add: starts_mid_word_def)
  qed
qed

lemma starts_mid_word_extend:
  assumes "suffix s prev" and "\<not> starts_mid_word prev s"
  shows "\<not> starts_mid_word (x @ '' '' @ prev) s"
proof
  assume m: "starts_mid_word (x @ '' '' @ prev) s"
  from assms(1) have le: "length s \<le> length prev"
    by (rule suffix_length_le)
  show False
  proof (cases "length s < length prev")
    case True
    then have idx: "length (x @ '' '' @ prev) - length s - 1
                      = length x + Suc (length prev - length s - 1)"
      by simp
    have "(x @ '' '' @ prev) ! (length (x @ '' '' @ prev) - length s - 1)
                 = prev ! (length prev - length s - 1)"
      unfolding idx by (simp add: nth_append)
    with m True assms(2) show False
      by (simp add: starts_mid_word_def)
  next
    case False
    with le have "length s = length prev" by simp
    then have "(x @ '' '' @ prev) ! (length (x @ '' '' @ prev) - length s - 1) = CHR '' ''"
      by (simp add: nth_append)
    with m show False
      by (simp add: starts_mid_word_def)
  qed
qed


lemma apply_overlap_length: "length (apply_overlap ov pre) = length pre"
proof (cases "pre = [] \<or> ov = 0")
  case True
  then show ?thesis by (simp add: apply_overlap_def)
next
  case False
  then have "0 < length pre" by simp
  with False show ?thesis
    by (simp add: apply_overlap_def del: upt_Suc)
qed

lemma apply_overlap_first: "pre \<noteq> [] \<Longrightarrow> apply_overlap ov pre ! 0 = pre ! 0"
  by (cases pre) (simp_all add: apply_overlap_def)

lemma apply_overlap_nth:
  assumes "ov \<noteq> 0" and "0 < i" and "i < length pre"
  shows "apply_overlap ov pre ! i = overlap_text ov (pre ! (i - 1)) @ '' '' @ pre ! i"
proof -
  from assms obtain j where j: "i = Suc j" by (cases i) auto
  from assms(3) have ne: "pre \<noteq> []" by auto
  have "j < length [1..<length pre]" using assms(3) j by simp
  then have "map (\<lambda>i. overlap_text ov (pre ! (i - 1)) @ '' '' @ pre ! i) [1..<length pre] ! j
               = overlap_text ov (pre ! (Suc j - 1)) @ '' '' @ pre ! Suc j"
    by (simp del: upt_Suc)
  with assms(1) ne j show ?thesis
    by (simp add: apply_overlap_def del: upt_Suc)
qed

lemma apply_overlap_ends_with:
  assumes "i < length pre"
  shows "suffix (pre ! i) (apply_overlap ov pre ! i)"
proof (cases "ov = 0 \<or> i = 0")
  case True
  with assms show ?thesis
    by (cases pre) (auto simp: apply_overlap_def)
next
  case False
  with assms have "apply_overlap ov pre ! i = overlap_text ov (pre ! (i - 1)) @ '' '' @ pre ! i"
    by (intro apply_overlap_nth) auto
  then show ?thesis
    by (metis append.assoc suffix_def)
qed

lemma apply_overlap_aligned:
  assumes "ov \<noteq> 0" and "i < length pre" and "suffix s (pre ! i)"
    and "\<not> starts_mid_word (pre ! i) s"
  shows "\<not> starts_mid_word (apply_overlap ov pre ! i) s"
proof (cases "i = 0")
  case True
  with assms show ?thesis
    by (cases pre) (auto simp: apply_overlap_def)
next
  case False
  with assms have "apply_overlap ov pre ! i = overlap_text ov (pre ! (i - 1)) @ '' '' @ pre ! i"
    by (intro apply_overlap_nth) auto
  with starts_mid_word_extend [OF assms(3,4)] show ?thesis by simp
qed

lemma apply_overlap_spec:
  assumes "0 < ov" and "0 < i" and "i < length pre"
  shows "apply_overlap ov pre ! i = overlap_text ov (pre ! (i - 1)) @ '' '' @ pre ! i
       \<and> suffix (overlap_text ov (pre ! (i - 1))) (apply_overlap ov pre ! (i - 1))
       \<and> int (length (overlap_text ov (pre ! (i - 1)))) \<le> ov
       \<and> (CHR '' '' \<in> set (overlap_window ov (pre ! (i - 1))) \<longrightarrow>
            \<not> starts_mid_word (apply_overlap ov pre ! (i - 1)) (overlap_text ov (pre ! (i - 1))))"
proof (intro conjI impI)
  from assms have i1: "i - 1 < length pre" and nz: "ov \<noteq> 0" by auto
  show "apply_overlap ov pre ! i = overlap_text ov (pre ! (i - 1)) @ '' '' @ pre ! i"
    using nz assms(2,3) by (rule apply_overlap_nth)
  show "suffix (overlap_text ov (pre ! (i - 1))) (apply_overlap ov pre ! (i - 1))"
    using overlap_text_suffix apply_overlap_ends_with [OF i1] by (rule suffix_order.trans)
  show "int (length (overlap_text ov (pre ! (i - 1)))) \<le> ov"
    using assms(1) by (rule overlap_text_length)
  show "\<not> starts_mid_word (apply_overlap ov pre ! (i - 1)) (overlap_text ov (pre ! (i - 1)))"
    if "CHR '' '' \<in> set (overlap_window ov (pre ! (i - 1)))"
    using nz i1 overlap_text_suffix overlap_text_aligned [OF that] by (rule apply_overlap_aligned)
qed

lemma split_with_separator_overlapped:
  "split_with_separator cs ov rec inp sep = Some out \<Longrightarrow> \<exists>pre. out = apply_overlap ov pre"
  by (auto simp: split_with_separator_def split: option.splits)

lemma try_separators_overlapped:
  "try_separators cs ov rec inp seps = Some out \<Longrightarrow> out \<noteq> [] \<Longrightarrow>
   \<exists>pre. out = apply_overlap ov pre"
proof (induction seps)
  case Nil
  then show ?case by simp
next
  case (Cons sep seps)
  then show ?case
    by (auto split: if_splits option.splits dest: split_with_separator_overlapped)
qed

lemma recursive_split_cases:
  assumes "recursive_split cs ov inp seps = Some out"
  shows "out = [] \<or> out = [py_strip inp] \<or> split_by_size cs ov inp = Some out
       \<or> (\<exists>pre. out = apply_overlap ov pre)"
proof (cases seps)
  case Nil
  with assms show ?thesis
    by (auto split: if_splits)
next
  case (Cons sep remaining)
  with assms show ?thesis
    by (auto simp del: try_separators.simps split: if_splits option.splits
        dest: try_separators_overlapped)
qed

text \<open>
  C2 (amended). Let \<open>chunk_overlap > 0\<close>. A result of \<open>split_text\<close> is empty, or the trimmed
  text alone, or the result of the fixed-width fallback, or it comes from a separator split
  and then every chunk except the first is \<open>overlap + " " + chunk\<close>, where \<open>overlap\<close> is a
  suffix of the previous chunk of length at most \<open>chunk_overlap\<close>. The overlap starts at a word
  boundary whenever the last \<open>chunk_overlap\<close> characters of the previous chunk hold a space;
  when they hold none they are taken whole.
\<close>

theorem split_text_overlap:
  assumes "split_text sp text = Some out" and "0 < chunk_overlap sp"
  shows "out = [] \<or> out = [py_strip text]
       \<or> split_by_size (chunk_size sp) (chunk_overlap sp) text = Some out
       \<or> (\<exists>pre. length pre = length out \<and> out = apply_overlap (chunk_overlap sp) pre
            \<and> (\<forall>i. 0 < i \<and> i < length out \<longrightarrow>
                 out ! i = overlap_text (chunk_overlap sp) (pre ! (i - 1)) @ '' '' @ pre ! i
               \<and> suffix (overlap_text (chunk_overlap sp) (pre ! (i - 1))) (out ! (i - 1))
               \<and> int (length (overlap_text (chunk_overlap sp) (pre ! (i - 1)))) \<le> chunk_overlap sp
               \<and> (CHR '' '' \<in> set (overlap_window (chunk_overlap sp) (pre ! (i - 1))) \<longrightarrow>
                    \<not> starts_mid_word (out ! (i - 1))
                         (overlap_text (chunk_overlap sp) (pre ! (i - 1))))))"
proof -
  from assms(1) have "out = [] \<or> out = [py_strip text]
       \<or> split_by_size (chunk_size sp) (chunk_overlap sp) text = Some out
       \<or> (\<exists>pre. out = apply_overlap (chunk_overlap sp) pre)"
    unfolding split_text_def by (rule recursive_split_cases)
  moreover have "\<exists>pre'. length pre' = length out \<and> out = apply_overlap (chunk_overlap sp) pre'
            \<and> (\<forall>i. 0 < i \<and> i < length out \<longrightarrow>
                 out ! i = overlap_text (chunk_overlap sp) (pre' ! (i - 1)) @ '' '' @ pre' ! i
               \<and> suffix (overlap_text (chunk_overlap sp) (pre' ! (i - 1))) (out ! (i - 1))
               \<and> int (length (overlap_text (chunk_overlap sp) (pre' ! (i - 1)))) \<le> chunk_overlap sp
               \<and> (CHR '' '' \<in> set (overlap_window (chunk_overlap sp) (pre' ! (i - 1))) \<longrightarrow>
                    \<not> starts_mid_word (out ! (i - 1))
                         (overlap_text (chunk_overlap sp) (pre' ! (i - 1)))))"
    if "out = apply_overlap (chunk_overlap sp) pre" for pre
  proof (intro exI [of _ pre] conjI allI impI)
    show "length pre = length out"
      by (simp add: that apply_overlap_length)
    show "out = apply_overlap (chunk_overlap sp) pre"
      by (rule that)
  next
    fix i
    assume "0 < i \<and> i < length out"
    then have i: "0 < i" "i < length pre"
      by (simp_all add: that apply_overlap_length)
    from apply_overlap_spec [OF assms(2) i]
    show "out ! i = overlap_text (chunk_overlap sp) (pre ! (i - 1)) @ '' '' @ pre ! i"
      and "suffix (overlap_text (chunk_overlap sp) (pre ! (i - 1))) (out ! (i - 1))"
      and "int (length (overlap_text (chunk_overlap sp) (pre ! (i - 1)))) \<le> chunk_overlap sp"
      by (simp_all add: that)
    show "\<not> starts_mid_word (out ! (i - 1)) (overlap_text (chunk_overlap sp) (pre ! (i - 1)))"
      if "CHR '' '' \<in> set (overlap_window (chunk_overlap sp) (pre ! (i - 1)))"
      using apply_overlap_spec [OF assms(2) i] that \<open>out = apply_overlap (chunk_overlap sp) pre\<close>
      by simp
  qed
  ultimately show ?thesis by blast
qed


theorem split_text_overlap_witness:
  "split_text (text_splitter 8 4 None) ''aa bb cc dd ee ff'' = Some [''aa bb cc'', ''cc dd ee ff'']
   \<and> 0 < chunk_overlap (text_splitter 8 4 None)
   \<and> CHR '' '' \<in> set (overlap_window 4 ''aa bb cc'')
   \<and> overlap_text 4 ''aa bb cc'' = ''cc''
   \<and> \<not> starts_mid_word ''aa bb cc'' ''cc''"
proof -
  have e: "split_text (text_splitter 8 4 None) ''aa bb cc dd ee ff''
             = Some [''aa bb cc'', ''cc dd ee ff'']"
    by code_simp
  have h: "0 < chunk_overlap (text_splitter 8 4 None)"
    by (simp add: text_splitter_def)
  have w: "CHR '' '' \<in> set (overlap_window 4 ''aa bb cc'')"
    by code_simp
  have t: "overlap_text 4 ''aa bb cc'' = ''cc''"
    by code_simp
  have a: "\<not> starts_mid_word ''aa bb cc'' ''cc''"
    by code_simp
  from split_text_overlap [OF e h] e h w t a show ?thesis
    by blast
qed

text \<open>
  With \<open>chunk_size = 10\<close> and \<open>chunk_overlap = 3\<close> the second chunk of
  \<open>abcdefgh ijklmnop\<close> starts with \<open>fgh\<close>, cut out of the middle of the first word; no other
  non-empty suffix of the first chunk starts the second.
\<close>

theorem split_text_overlap_mid_word_counterexample:
  "split_text (text_splitter 10 3 None) ''abcdefgh ijklmnop'' = Some [''abcdefgh'', ''fgh ijklmnop'']
   \<and> overlap_text 3 ''abcdefgh'' = ''fgh''
   \<and> starts_mid_word ''abcdefgh'' ''fgh''
   \<and> \<not> (\<exists>s. s \<noteq> [] \<and> suffix s ''abcdefgh'' \<and> prefix s ''fgh ijklmnop''
            \<and> \<not> starts_mid_word ''abcdefgh'' s)"
proof -
  have e: "split_text (text_splitter 10 3 None) ''abcdefgh ijklmnop''
             = Some [''abcdefgh'', ''fgh ijklmnop'']"
    by code_simp
  have t: "overlap_text 3 ''abcdefgh'' = ''fgh''"
    by code_simp
  have m: "starts_mid_word ''abcdefgh'' ''fgh''"
    by code_simp
  have l: "list_all (\<lambda>s. \<not> (s \<noteq> [] \<and> prefix s ''fgh ijklmnop'' \<and> \<not> starts_mid_word ''abcdefgh'' s))
          (suffixes ''abcdefgh'')"
    by code_simp
  have n: "\<not> (\<exists>s. s \<noteq> [] \<and> suffix s ''abcdefgh'' \<and> prefix s ''fgh ijklmnop''
            \<and> \<not> starts_mid_word ''abcdefgh'' s)"
  proof
    assume "\<exists>s. s \<noteq> [] \<and> suffix s ''abcdefgh'' \<and> prefix s ''fgh ijklmnop''
            \<and> \<not> starts_mid_word ''abcdefgh'' s"
    then obtain s where s: "s \<noteq> []" "suffix s ''abcdefgh''" "prefix s ''fgh ijklmnop''"
      "\<not> starts_mid_word ''abcdefgh'' s"
      by blast
    from s(2) have mem: "s \<in> set (suffixes ''abcdefgh'')"
      by (simp only: in_set_suffixes)
    from l have "\<forall>s \<in> set (suffixes ''abcdefgh'').
        \<not> (s \<noteq> [] \<and> prefix s ''fgh ijklmnop'' \<and> \<not> starts_mid_word ''abcdefgh'' s)"
      by (simp only: list_all_iff)
    from bspec [OF this mem] s show False by blast
  qed
  from e t m n show ?thesis by (intro conjI)
qed

end
